theory Spec2Isabelle
  imports Main "HOL-Library.Word"
begin

unbundle bit_operations_syntax

section \<open>The codec of Delta\_RLE.py\<close>

text \<open>
  The data flowing through \<^verbatim>\<open>SimpleCompressionSystem\<close> is a Python \<^verbatim>\<open>bytes\<close>
  object: a sequence of integers in range(256). An element is an 8-bit word here, a
  sequence is a list. Indices and the run length are Python integers that only count
  upwards from 0 or 1, so they are natural numbers. The method selector is a Python string.
\<close>

type_synonym byte = "8 word"

text \<open>
  The exceptions the codec can raise: \<^verbatim>\<open>ValueError\<close> with its message (raised by the
  source for an unknown method, and by \<^verbatim>\<open>bytearray.append\<close> for an integer outside
  range(256)), and \<^verbatim>\<open>IndexError\<close> (raised by indexing a \<^verbatim>\<open>bytes\<close> object out
  of range).
\<close>

datatype error = ValueError string | IndexError

definition invalid_method_message :: string where
  "invalid_method_message = ''Invalid method. Use '01', '02', or '03'.''"

definition byte_range_message :: string where
  "byte_range_message = ''byte must be in range(0, 256)''"

text \<open>The object: its only field is \<^verbatim>\<open>last_byte\<close>, set to 0 by \<^verbatim>\<open>__init__\<close>.\<close>

record SimpleCompressionSystem =
  last_byte :: int

definition init :: SimpleCompressionSystem where
  "init = \<lparr>last_byte = 0\<rparr>"

text \<open>
  Every method takes the object and returns its result together with the object as the
  method leaves it.
\<close>

subsection \<open>Delta encoding\<close>

text \<open>
  \<^verbatim>\<open>[(data[i] - data[i - 1]) & 0xFF if i > 0 else data[i] for i in range(len(data))]\<close>:
  the subtraction is on Python's unbounded integers, then masked to 8 bits.
\<close>

definition apply_delta_encoding ::
  "SimpleCompressionSystem \<Rightarrow> byte list \<Rightarrow> byte list \<times> SimpleCompressionSystem" where
  "apply_delta_encoding self data =
     (map (\<lambda>i. if i > 0 then word_of_int ((uint (data ! i) - uint (data ! (i - 1))) AND 0xFF)
                else data ! i)
          [0..<length data],
      self)"

subsection \<open>Run-length encoding\<close>

text \<open>
  The inner loop of \<^verbatim>\<open>_apply_rle\<close>:
  \<^verbatim>\<open>while i + run_length < len(data) and data[i] == data[i + run_length] and run_length < 255:
      run_length += 1\<close>
  Python's \<^verbatim>\<open>and\<close> evaluates \<^verbatim>\<open>data[i + run_length]\<close> only when the index is in range.
\<close>

function run_length_loop :: "byte list \<Rightarrow> nat \<Rightarrow> nat \<Rightarrow> nat" where
  "run_length_loop data i run_length =
     (if i + run_length < length data \<and> data ! i = data ! (i + run_length) \<and> run_length < 255
      then run_length_loop data i (run_length + 1)
      else run_length)"
  by pat_completeness auto
termination
  by (relation "measure (\<lambda>(data, i, run_length). 255 - run_length)") auto

declare run_length_loop.simps [simp del]

text \<open>\<^verbatim>\<open>bytearray.append(n)\<close> raises ValueError unless n is in range(256).\<close>

definition bytearray_append :: "byte list \<Rightarrow> nat \<Rightarrow> error + byte list" where
  "bytearray_append xs n =
     (if n < 256 then Inr (xs @ [of_nat n]) else Inl (ValueError byte_range_message))"

text \<open>The inner loop never decreases the run length; the outer loop terminates for that reason.\<close>

lemma run_length_loop_ge: "run_length \<le> run_length_loop data i run_length"
proof (induction data i run_length rule: run_length_loop.induct)
  case (1 data i run_length)
  show ?case
  proof (cases "i + run_length < length data \<and> data ! i = data ! (i + run_length)
                \<and> run_length < 255")
    case True
    with 1 have "run_length + 1 \<le> run_length_loop data i (run_length + 1)" by simp
    with True show ?thesis by (subst run_length_loop.simps) simp
  next
    case False
    then show ?thesis by (subst run_length_loop.simps) auto
  qed
qed

text \<open>
  The outer loop of \<^verbatim>\<open>_apply_rle\<close>, from index i with the output built so far:
  \<^verbatim>\<open>while i < len(data):
      run_length = 1
      (inner loop)
      compressed.append(data[i])
      compressed.append(run_length)
      i += run_length\<close>
  \<^verbatim>\<open>data[i]\<close> is an element of the input, so the first append cannot raise.
\<close>

function rle_loop :: "byte list \<Rightarrow> nat \<Rightarrow> byte list \<Rightarrow> error + byte list" where
  "rle_loop data i compressed =
     (if i < length data then
        (let run_length = run_length_loop data i 1 in
         case bytearray_append (compressed @ [data ! i]) run_length of
           Inl e \<Rightarrow> Inl e
         | Inr compressed' \<Rightarrow> rle_loop data (i + run_length) compressed')
      else Inr compressed)"
  by pat_completeness auto
termination
proof (relation "measure (\<lambda>(data, i, compressed). length data - i)")
  show "wf (measure (\<lambda>(data, i, compressed). length data - i))" by simp
next
  fix data :: "byte list" and i :: nat and compressed x2 :: "byte list" and x :: nat
  assume "i < length data" and "x = run_length_loop data i 1"
  moreover have "1 \<le> run_length_loop data i 1" by (rule run_length_loop_ge)
  ultimately show "((data, i + x, x2), (data, i, compressed))
      \<in> measure (\<lambda>(data, i, compressed). length data - i)"
    by simp
qed

declare rle_loop.simps [simp del]

definition apply_rle ::
  "SimpleCompressionSystem \<Rightarrow> byte list \<Rightarrow> (error + byte list) \<times> SimpleCompressionSystem" where
  "apply_rle self data = (rle_loop data 0 [], self)"

subsection \<open>compress\<close>

text \<open>
  The final \<^verbatim>\<open>bytes(compressed)\<close> turns a bytearray, or a list of integers that are all
  in range(256), into an immutable byte sequence with the same elements.
\<close>

definition compress ::
  "SimpleCompressionSystem \<Rightarrow> byte list \<Rightarrow> string
     \<Rightarrow> (error + byte list) \<times> SimpleCompressionSystem" where
  "compress self data method =
     (if method = ''01'' then
        (let (delta_encoded, self') = apply_delta_encoding self data
         in apply_rle self' delta_encoded)
      else if method = ''02'' then apply_rle self data
      else if method = ''03'' then
        (let (compressed, self') = apply_delta_encoding self data
         in (Inr compressed, self'))
      else (Inl (ValueError invalid_method_message), self))"

subsection \<open>decompress\<close>

text \<open>
  Reversing RLE (the loop is written twice in the source, for methods '01' and '02', with
  the same text):
  \<^verbatim>\<open>while i < len(data):
      byte = data[i]
      run_length = data[i + 1]
      decompressed.extend([byte] * run_length)
      i += 2\<close>
  \<^verbatim>\<open>data[i + 1]\<close> raises IndexError when i + 1 is not below len(data).
\<close>

function rle_decode_loop :: "byte list \<Rightarrow> nat \<Rightarrow> byte list \<Rightarrow> error + byte list" where
  "rle_decode_loop data i decompressed =
     (if i < length data then
        (let byte = data ! i in
         if i + 1 < length data then
           (let run_length = data ! (i + 1) in
            rle_decode_loop data (i + 2) (decompressed @ replicate (unat run_length) byte))
         else Inl IndexError)
      else Inr decompressed)"
  by pat_completeness auto
termination
  by (relation "measure (\<lambda>(data, i, decompressed). length data - i)") auto

declare rle_decode_loop.simps [simp del]

text \<open>
  Reversing the delta encoding (also written twice, for '01' and '03'), in place:
  \<^verbatim>\<open>for i in range(1, len(decompressed)):
      decompressed[i] = (decompressed[i] + decompressed[i - 1]) & 0xFF\<close>
\<close>

definition delta_decode_loop :: "byte list \<Rightarrow> byte list" where
  "delta_decode_loop decompressed =
     fold (\<lambda>i d. d[i := word_of_int ((uint (d ! i) + uint (d ! (i - 1))) AND 0xFF)])
          [1..<length decompressed] decompressed"

definition decompress ::
  "SimpleCompressionSystem \<Rightarrow> byte list \<Rightarrow> string
     \<Rightarrow> (error + byte list) \<times> SimpleCompressionSystem" where
  "decompress self data method =
     (if method = ''01'' then
        (case rle_decode_loop data 0 [] of
           Inl e \<Rightarrow> (Inl e, self)
         | Inr decompressed \<Rightarrow> (Inr (delta_decode_loop decompressed), self))
      else if method = ''02'' then
        (case rle_decode_loop data 0 [] of
           Inl e \<Rightarrow> (Inl e, self)
         | Inr decompressed \<Rightarrow> (Inr decompressed, self))
      else if method = ''03'' then (Inr (delta_decode_loop data), self)
      else (Inl (ValueError invalid_method_message), self))"

section \<open>Characterisations used in the proofs\<close>

text \<open>
  The delta encoding without the detour through unbounded integers: on 8-bit words the
  masked difference is the wrapping subtraction.
\<close>

definition delta_list :: "byte list \<Rightarrow> byte list" where
  "delta_list x = map (\<lambda>i. if i > 0 then x ! i - x ! (i - 1) else x ! i) [0..<length x]"

text \<open>One iteration of the loop that reverses the delta encoding, on 8-bit words.\<close>

definition undelta_step :: "nat \<Rightarrow> byte list \<Rightarrow> byte list" where
  "undelta_step i d = d[i := d ! i + d ! (i - 1)]"

text \<open>
  What the specification says of RLE decoding: the input is read as consecutive pairs
  [value, runLength], and the output is the concatenation, in order, of runLength copies
  of value for each pair.
\<close>

fun pairs :: "'a list \<Rightarrow> ('a \<times> 'a) list" where
  "pairs (v # n # rest) = (v, n) # pairs rest"
| "pairs _ = []"

definition rleDecode_spec :: "byte list \<Rightarrow> byte list" where
  "rleDecode_spec d = concat (map (\<lambda>(v, runLength). replicate (unat runLength) v) (pairs d))"

text \<open>
  The records that the outer loop of \<^verbatim>\<open>_apply_rle\<close> appends from index i on (the loop
  never raises, see \<open>rle_loop_rle_from\<close>).
\<close>

definition rle_from :: "byte list \<Rightarrow> nat \<Rightarrow> byte list" where
  "rle_from data i = (case rle_loop data i [] of Inr E \<Rightarrow> E | Inl e \<Rightarrow> [])"

section \<open>Byte arithmetic\<close>

lemma and_255: "(x::int) AND 0xFF = take_bit 8 x"
proof -
  have "(0xFF::int) = mask 8" by (simp add: mask_eq_exp_minus_1)
  then show ?thesis by (simp only: take_bit_eq_mask)
qed

lemma wi_and_255: "word_of_int (x AND 0xFF) = (word_of_int x :: byte)"
  unfolding and_255 by (simp add: word_of_int_eq_iff)

lemma mask_sub: "word_of_int ((uint a - uint b) AND 0xFF) = (a - b :: byte)"
  unfolding wi_and_255 by simp

lemma mask_add: "word_of_int ((uint a + uint b) AND 0xFF) = (a + b :: byte)"
  unfolding wi_and_255 by simp

lemma uint_sub_byte: "uint (a - b :: byte) = (uint a - uint b) mod 256"
  by (simp add: uint_word_ariths)

lemma apply_delta_encoding_eq: "apply_delta_encoding self data = (delta_list data, self)"
  unfolding apply_delta_encoding_def delta_list_def mask_sub by (rule refl)

lemma length_delta_list: "length (delta_list x) = length x"
  by (simp add: delta_list_def)

lemma nth_delta_list:
  "i < length x \<Longrightarrow> delta_list x ! i = (if i > 0 then x ! i - x ! (i - 1) else x ! i)"
  by (auto simp: delta_list_def)

lemma delta_decode_loop_eq:
  "delta_decode_loop d = fold undelta_step [1..<length d] d"
  unfolding delta_decode_loop_def undelta_step_def [abs_def] mask_add by (rule refl)

lemma length_fold_undelta: "length (fold undelta_step is d) = length d"
  by (induction "is" arbitrary: d) (simp_all add: undelta_step_def)

lemma nth_fold_undelta:
  "k \<le> length x \<Longrightarrow> j < length x \<Longrightarrow>
   fold undelta_step [1..<k] (delta_list x) ! j = (if j < k then x ! j else delta_list x ! j)"
proof (induction k arbitrary: j)
  case 0
  then show ?case by simp
next
  case (Suc k)
  show ?case
  proof (cases "k = 0")
    case True
    with Suc.prems show ?thesis by (simp add: nth_delta_list)
  next
    case False
    let ?D = "fold undelta_step [1..<k] (delta_list x)"
    from False have split: "[1..<Suc k] = [1..<k] @ [k]" by simp
    have len: "length ?D = length x" by (simp add: length_fold_undelta length_delta_list)
    from Suc.prems have k: "k < length x" by simp
    from Suc.IH [of k] k False have Dk: "?D ! k = x ! k - x ! (k - 1)"
      by (simp add: nth_delta_list)
    from Suc.IH [of "k - 1"] k False have Dk1: "?D ! (k - 1) = x ! (k - 1)" by simp
    from Suc.IH [of j] Suc.prems have Dj: "?D ! j = (if j < k then x ! j else delta_list x ! j)"
      by simp
    have "fold undelta_step [1..<Suc k] (delta_list x) ! j = (?D[k := ?D ! k + ?D ! (k - 1)]) ! j"
      by (simp only: split fold_append fold_simps o_apply undelta_step_def)
    also have "\<dots> = (if j = k then x ! k else ?D ! j)"
      using k len Dk Dk1 by (simp add: nth_list_update)
    also have "\<dots> = (if j < Suc k then x ! j else delta_list x ! j)"
      using Dj by auto
    finally show ?thesis .
  qed
qed

lemma delta_decode_delta_list: "delta_decode_loop (delta_list x) = x"
proof (rule nth_equalityI)
  show "length (delta_decode_loop (delta_list x)) = length x"
    by (simp add: delta_decode_loop_eq length_fold_undelta length_delta_list)
next
  fix i assume "i < length (delta_decode_loop (delta_list x))"
  then have i: "i < length x"
    by (simp add: delta_decode_loop_eq length_fold_undelta length_delta_list)
  then show "delta_decode_loop (delta_list x) ! i = x ! i"
    using nth_fold_undelta [of "length x" x i]
    by (simp add: delta_decode_loop_eq length_delta_list)
qed

section \<open>Run-length encoding and decoding\<close>

lemma rleDecode_spec_simps [simp]:
  "rleDecode_spec [] = []"
  "rleDecode_spec [v] = []"
  "rleDecode_spec (v # n # rest) = replicate (unat n) v @ rleDecode_spec rest"
  by (simp_all add: rleDecode_spec_def)

lemma run_length_loop_le: "run_length \<le> 255 \<Longrightarrow> run_length_loop data i run_length \<le> 255"
proof (induction data i run_length rule: run_length_loop.induct)
  case (1 data i run_length)
  then show ?case by (subst run_length_loop.simps) auto
qed

lemma run_length_loop_in_range:
  "i + run_length \<le> length data \<Longrightarrow> i + run_length_loop data i run_length \<le> length data"
proof (induction data i run_length rule: run_length_loop.induct)
  case (1 data i run_length)
  then show ?case by (subst run_length_loop.simps) auto
qed

lemma run_length_loop_equal:
  "\<forall>k<run_length. data ! (i + k) = data ! i \<Longrightarrow>
   \<forall>k<run_length_loop data i run_length. data ! (i + k) = data ! i"
proof (induction data i run_length rule: run_length_loop.induct)
  case (1 data i run_length)
  show ?case
  proof (cases "i + run_length < length data \<and> data ! i = data ! (i + run_length)
                \<and> run_length < 255")
    case True
    with "1.prems" have "\<forall>k<run_length + 1. data ! (i + k) = data ! i"
      by (auto simp: less_Suc_eq)
    with True "1.IH" have "\<forall>k<run_length_loop data i (run_length + 1). data ! (i + k) = data ! i"
      by blast
    with True show ?thesis by (subst run_length_loop.simps) simp
  next
    case False
    with "1.prems" show ?thesis by (subst run_length_loop.simps) auto
  qed
qed

lemma run_take:
  assumes "i < length data"
  shows "take (run_length_loop data i 1) (drop i data) = replicate (run_length_loop data i 1) (data ! i)"
proof (rule nth_equalityI)
  let ?r = "run_length_loop data i 1"
  from assms have le: "i + ?r \<le> length data" by (intro run_length_loop_in_range) simp
  then show "length (take ?r (drop i data)) = length (replicate ?r (data ! i))" by simp
  fix k assume "k < length (take ?r (drop i data))"
  then have k: "k < ?r" by simp
  have "\<forall>k<?r. data ! (i + k) = data ! i"
    by (rule run_length_loop_equal) simp
  with k le show "take ?r (drop i data) ! k = replicate ?r (data ! i) ! k" by simp
qed

lemma rle_loop_done: "\<not> i < length data \<Longrightarrow> rle_loop data i compressed = Inr compressed"
  by (subst rle_loop.simps) simp

lemma rle_loop_step:
  "i < length data \<Longrightarrow>
   rle_loop data i compressed =
     rle_loop data (i + run_length_loop data i 1)
       (compressed @ [data ! i, of_nat (run_length_loop data i 1)])"
  using run_length_loop_le [of 1 data i]
  by (subst rle_loop.simps) (simp add: bytearray_append_def Let_def)

lemma unat_run_length: "unat (of_nat (run_length_loop data i 1) :: byte) = run_length_loop data i 1"
  using run_length_loop_le [of 1 data i] by (simp add: unat_of_nat)

lemma rle_loop_correct:
  "\<exists>E. rle_loop data i compressed = Inr (compressed @ E) \<and> even (length E)
       \<and> rleDecode_spec E = drop i data \<and> length E \<le> 2 * (length data - i)
       \<and> (\<forall>(v, n) \<in> set (pairs E). 1 \<le> unat n \<and> unat n \<le> 255)"
proof (induction data i compressed rule: rle_loop.induct)
  case (1 data i compressed)
  show ?case
  proof (cases "i < length data")
    case False
    then show ?thesis by (simp add: rle_loop_done)
  next
    case True
    let ?r = "run_length_loop data i 1"
    let ?c = "compressed @ [data ! i, of_nat ?r]"
    have r1: "1 \<le> ?r" by (rule run_length_loop_ge)
    have r255: "?r \<le> 255" by (rule run_length_loop_le) simp
    from True have rlen: "i + ?r \<le> length data" by (intro run_length_loop_in_range) simp
    have app: "bytearray_append (compressed @ [data ! i]) ?r = Inr ?c"
      using r255 by (simp add: bytearray_append_def)
    from "1.IH" [OF True refl app] obtain E where
      E: "rle_loop data (i + ?r) ?c = Inr (?c @ E)" "even (length E)"
         "rleDecode_spec E = drop (i + ?r) data" "length E \<le> 2 * (length data - (i + ?r))"
         "\<forall>(v, n) \<in> set (pairs E). 1 \<le> unat n \<and> unat n \<le> 255"
      by blast
    let ?E = "data ! i # of_nat ?r # E"
    have "rle_loop data i compressed = Inr (compressed @ ?E)"
      using E(1) by (simp add: rle_loop_step [OF True])
    moreover have "even (length ?E)" using E(2) by simp
    moreover have "rleDecode_spec ?E = drop i data"
    proof -
      have "rleDecode_spec ?E = replicate ?r (data ! i) @ drop (i + ?r) data"
        using unat_run_length [of data i] by (simp add: E(3))
      also have "\<dots> = drop i data"
        using run_take [OF True] append_take_drop_id [of ?r "drop i data"]
        by (simp add: add.commute)
      finally show ?thesis .
    qed
    moreover have "length ?E \<le> 2 * (length data - i)" using E(4) r1 rlen by simp
    moreover have "\<forall>(v, n) \<in> set (pairs ?E). 1 \<le> unat n \<and> unat n \<le> 255"
      using E(5) r1 r255 unat_run_length [of data i] by simp
    ultimately show ?thesis by blast
  qed
qed

lemma rle_decode_loop_eq:
  "i \<le> length data \<Longrightarrow>
   rle_decode_loop data i decompressed =
     (if even (length data - i) then Inr (decompressed @ rleDecode_spec (drop i data))
      else Inl IndexError)"
proof (induction data i decompressed rule: rle_decode_loop.induct)
  case (1 data i decompressed)
  show ?case
  proof (cases "i < length data")
    case False
    then show ?thesis by (subst rle_decode_loop.simps) simp
  next
    case True
    show ?thesis
    proof (cases "i + 1 < length data")
      case False
      with True have "length data - i = 1" by simp
      with True False show ?thesis by (subst rle_decode_loop.simps) simp
    next
      case True2: True
      have d: "drop i data = data ! i # data ! (i + 1) # drop (i + 2) data"
        using True True2 by (simp add: Cons_nth_drop_Suc)
      have ev: "even (length data - (i + 2)) = even (length data - i)"
        using True2 by simp
      from "1.IH" [OF True refl True2 refl] True2
      have "rle_decode_loop data (i + 2) (decompressed @ replicate (unat (data ! (i + 1))) (data ! i))
            = (if even (length data - (i + 2))
               then Inr ((decompressed @ replicate (unat (data ! (i + 1))) (data ! i))
                          @ rleDecode_spec (drop (i + 2) data))
               else Inl IndexError)"
        by simp
      with True True2 show ?thesis
        by (subst rle_decode_loop.simps) (simp add: d ev Let_def)
    qed
  qed
qed

lemma apply_rle_ok:
  "\<exists>E. apply_rle self data = (Inr E, self) \<and> even (length E)
       \<and> rleDecode_spec E = data \<and> length E \<le> 2 * length data
       \<and> (\<forall>(v, n) \<in> set (pairs E). 1 \<le> unat n \<and> unat n \<le> 255)"
  using rle_loop_correct [of data 0 "[]"] by (simp add: apply_rle_def)

lemma rle_decode_even:
  "even (length d) \<Longrightarrow> rle_decode_loop d 0 [] = Inr (rleDecode_spec d)"
  by (simp add: rle_decode_loop_eq)

lemma rle_decode_odd:
  "odd (length d) \<Longrightarrow> rle_decode_loop d 0 [] = Inl IndexError"
  by (simp add: rle_decode_loop_eq)


section \<open>Further facts about the RLE loops\<close>

lemma pairs_nth_mem:
  "2 * k + 1 < length E \<Longrightarrow> (E ! (2 * k), E ! (2 * k + 1)) \<in> set (pairs E)"
proof (induction E arbitrary: k rule: pairs.induct)
  case (1 v n rest)
  show ?case
  proof (cases k)
    case 0
    then show ?thesis by simp
  next
    case (Suc k')
    with "1.prems" have "2 * k' + 1 < length rest" by simp
    from "1.IH" [OF this] Suc show ?thesis by simp
  qed
qed simp_all

lemma length_rleDecode_spec:
  "length (rleDecode_spec d) = (\<Sum>k<length d div 2. unat (d ! (2 * k + 1)))"
proof (induction d rule: pairs.induct)
  case (1 v n rest)
  have "(\<Sum>k<length (v # n # rest) div 2. unat ((v # n # rest) ! (2 * k + 1)))
        = (\<Sum>k<Suc (length rest div 2). unat ((v # n # rest) ! (2 * k + 1)))"
    by simp
  also have "\<dots> = unat n + (\<Sum>k<length rest div 2. unat (rest ! (2 * k + 1)))"
    by (subst sum.lessThan_Suc_shift) simp
  finally show ?case using 1 by simp
qed simp_all

lemma rleDecode_spec_append:
  "even (length a) \<Longrightarrow> rleDecode_spec (a @ b) = rleDecode_spec a @ rleDecode_spec b"
proof (induction a rule: pairs.induct)
  case (1 v n rest)
  then show ?case by simp
qed simp_all

lemma run_length_loop_replicate:
  "i + r \<le> n \<Longrightarrow> r \<le> 255 \<Longrightarrow> run_length_loop (replicate n b) i r = min (n - i) 255"
proof (induction "replicate n b" i r rule: run_length_loop.induct)
  case (1 i r)
  show ?case
  proof (cases "i + r < n \<and> r < 255")
    case True
    then have "run_length_loop (replicate n b) i (r + 1) = min (n - i) 255"
      by (intro "1.hyps") simp_all
    with True show ?thesis by (subst run_length_loop.simps) simp
  next
    case False
    with "1.prems" show ?thesis by (subst run_length_loop.simps) auto
  qed
qed

lemma rle_loop_replicate:
  "i \<le> n \<Longrightarrow>
   rle_loop (replicate n b) i acc =
     Inr (acc @ concat (replicate ((n - i) div 255) [b, 255])
              @ (if (n - i) mod 255 = 0 then [] else [b, of_nat ((n - i) mod 255)]))"
proof (induction "n - i" arbitrary: i acc rule: less_induct)
  case less
  show ?case
  proof (cases "i < n")
    case False
    with less.prems have "i = n" by simp
    then show ?thesis by (simp add: rle_loop_done)
  next
    case True
    have r: "run_length_loop (replicate n b) i 1 = min (n - i) 255"
      using True by (intro run_length_loop_replicate) simp_all
    have step: "rle_loop (replicate n b) i acc =
        rle_loop (replicate n b) (i + min (n - i) 255) (acc @ [b, of_nat (min (n - i) 255)])"
      using True rle_loop_step [of i "replicate n b" acc] r by simp
    show ?thesis
    proof (cases "255 \<le> n - i")
      case big: True
      then have m: "min (n - i) 255 = 255" by simp
      from big have d: "(n - i) div 255 = Suc ((n - (i + 255)) div 255)"
        and md: "(n - i) mod 255 = (n - (i + 255)) mod 255"
        by (simp_all add: le_div_geq le_mod_geq)
      have "rle_loop (replicate n b) (i + 255) (acc @ [b, 255]) =
         Inr ((acc @ [b, 255]) @ concat (replicate ((n - (i + 255)) div 255) [b, 255])
              @ (if (n - (i + 255)) mod 255 = 0 then []
                 else [b, of_nat ((n - (i + 255)) mod 255)]))"
        using big True by (intro less.hyps) simp_all
      then show ?thesis unfolding step m d md by simp
    next
      case small: False
      with True have m: "min (n - i) 255 = n - i" and d: "(n - i) div 255 = 0"
        and md: "(n - i) mod 255 = n - i" and nz: "n - i \<noteq> 0"
        by simp_all
      from True have "i + (n - i) = n" by simp
      then show ?thesis unfolding step m d md using nz by (simp add: rle_loop_done)
    qed
  qed
qed

lemma run_length_loop_no_repeat:
  "i + 1 < length data \<longrightarrow> data ! i \<noteq> data ! (i + 1) \<Longrightarrow> run_length_loop data i 1 = 1"
  by (subst run_length_loop.simps) auto

lemma rle_loop_no_repeat:
  "\<forall>j. i \<le> j \<and> j + 1 < length data \<longrightarrow> data ! j \<noteq> data ! (j + 1) \<Longrightarrow>
   rle_loop data i acc = Inr (acc @ concat (map (\<lambda>b. [b, 1]) (drop i data)))"
proof (induction "length data - i" arbitrary: i acc rule: less_induct)
  case less
  show ?case
  proof (cases "i < length data")
    case False
    then show ?thesis by (simp add: rle_loop_done)
  next
    case True
    from less.prems have r: "run_length_loop data i 1 = 1"
      by (intro run_length_loop_no_repeat) simp
    have "rle_loop data (i + 1) (acc @ [data ! i, 1]) =
          Inr ((acc @ [data ! i, 1]) @ concat (map (\<lambda>b. [b, 1]) (drop (i + 1) data)))"
      using True less.prems by (intro less.hyps) simp_all
    moreover have "drop i data = data ! i # drop (i + 1) data"
      using True by (simp add: Cons_nth_drop_Suc)
    ultimately show ?thesis using rle_loop_step [OF True, of acc] r by simp
  qed
qed

section \<open>Run-length encoding of concatenated inputs\<close>

lemma rle_from_done: "\<not> i < length data \<Longrightarrow> rle_from data i = []"
  by (simp add: rle_from_def rle_loop_done)

lemma rle_loop_rle_from: "rle_loop data i acc = Inr (acc @ rle_from data i)"
proof (induction "length data - i" arbitrary: i acc rule: less_induct)
  case less
  show ?case
  proof (cases "i < length data")
    case False
    then show ?thesis by (simp add: rle_loop_done rle_from_done)
  next
    case True
    let ?r = "run_length_loop data i 1"
    let ?rec = "[data ! i, of_nat ?r]"
    have "1 \<le> ?r" by (rule run_length_loop_ge)
    with True have dec: "length data - (i + ?r) < length data - i" by simp
    have "rle_loop data (i + ?r) ?rec = Inr (?rec @ rle_from data (i + ?r))"
      using less.hyps [OF dec, of ?rec] .
    then have "rle_from data i = ?rec @ rle_from data (i + ?r)"
      using rle_loop_step [OF True, of "[]"] by (simp add: rle_from_def)
    moreover have "rle_loop data (i + ?r) (acc @ ?rec) = Inr ((acc @ ?rec) @ rle_from data (i + ?r))"
      using less.hyps [OF dec, of "acc @ ?rec"] .
    ultimately show ?thesis using rle_loop_step [OF True, of acc] by simp
  qed
qed

lemma rle_from_step:
  "i < length data \<Longrightarrow>
   rle_from data i = [data ! i, of_nat (run_length_loop data i 1)]
                     @ rle_from data (i + run_length_loop data i 1)"
  using rle_loop_step [of i data "[]"] rle_loop_rle_from [of data i "[]"]
    rle_loop_rle_from [of data "i + run_length_loop data i 1"
                          "[data ! i, of_nat (run_length_loop data i 1)]"]
  by simp

lemma run_length_loop_append_left:
  "i + r \<le> length xs \<Longrightarrow> 1 \<le> r \<Longrightarrow> \<forall>k<r. xs ! (i + k) = xs ! i \<Longrightarrow>
   ys = [] \<or> last xs \<noteq> hd ys \<Longrightarrow>
   run_length_loop (xs @ ys) i r = run_length_loop xs i r"
proof (induction xs i r rule: run_length_loop.induct)
  case (1 xs i r)
  show ?case
  proof (cases "i + r < length xs")
    case inside: True
    then have nth: "(xs @ ys) ! i = xs ! i" "(xs @ ys) ! (i + r) = xs ! (i + r)"
      by (simp_all add: nth_append)
    show ?thesis
    proof (cases "xs ! i = xs ! (i + r) \<and> r < 255")
      case True
      with "1.prems" have "\<forall>k<r + 1. xs ! (i + k) = xs ! i" by (auto simp: less_Suc_eq)
      with True inside "1.prems" have
        "run_length_loop (xs @ ys) i (r + 1) = run_length_loop xs i (r + 1)"
        by (intro "1.IH") simp_all
      with True inside nth show ?thesis
        by (subst run_length_loop.simps, subst (2) run_length_loop.simps) simp
    next
      case False
      with inside nth show ?thesis
        by (subst run_length_loop.simps, subst (2) run_length_loop.simps) auto
    qed
  next
    case False
    with "1.prems" have end_: "i + r = length xs" by simp
    then have xs_side: "run_length_loop xs i r = r" by (subst run_length_loop.simps) simp
    show ?thesis
    proof (cases "ys = []")
      case True
      with xs_side show ?thesis by simp
    next
      case ne: False
      with "1.prems" have diff: "last xs \<noteq> hd ys" by simp
      from end_ "1.prems" have xs_ne: "xs \<noteq> []" by auto
      from "1.prems" have "r - 1 < r" by simp
      with "1.prems" have "xs ! (i + (r - 1)) = xs ! i" by blast
      moreover from end_ "1.prems" have "i + (r - 1) = length xs - 1" by simp
      ultimately have "xs ! i = last xs" using xs_ne by (simp add: last_conv_nth)
      moreover from end_ "1.prems" have "(xs @ ys) ! i = xs ! i" by (simp add: nth_append)
      moreover from end_ ne have "(xs @ ys) ! (i + r) = hd ys"
        by (simp add: nth_append hd_conv_nth)
      ultimately have "(xs @ ys) ! i \<noteq> (xs @ ys) ! (i + r)" using diff by simp
      then have "run_length_loop (xs @ ys) i r = r" by (subst run_length_loop.simps) simp
      with xs_side show ?thesis by simp
    qed
  qed
qed

lemma run_length_loop_append_right:
  "run_length_loop (xs @ ys) (length xs + j) r = run_length_loop ys j r"
proof (induction ys j r rule: run_length_loop.induct)
  case (1 ys j r)
  have cond: "(length xs + j + r < length (xs @ ys) \<and>
               (xs @ ys) ! (length xs + j) = (xs @ ys) ! (length xs + j + r) \<and> r < 255)
              = (j + r < length ys \<and> ys ! j = ys ! (j + r) \<and> r < 255)"
    by (simp add: add.assoc)
  have L: "run_length_loop (xs @ ys) (length xs + j) r =
     (if length xs + j + r < length (xs @ ys) \<and>
         (xs @ ys) ! (length xs + j) = (xs @ ys) ! (length xs + j + r) \<and> r < 255
      then run_length_loop (xs @ ys) (length xs + j) (r + 1) else r)"
    by (rule run_length_loop.simps)
  have R: "run_length_loop ys j r =
     (if j + r < length ys \<and> ys ! j = ys ! (j + r) \<and> r < 255
      then run_length_loop ys j (r + 1) else r)"
    by (rule run_length_loop.simps)
  show ?case
  proof (cases "j + r < length ys \<and> ys ! j = ys ! (j + r) \<and> r < 255")
    case True
    with cond have cl: "length xs + j + r < length (xs @ ys) \<and>
         (xs @ ys) ! (length xs + j) = (xs @ ys) ! (length xs + j + r) \<and> r < 255"
      by blast
    have "run_length_loop (xs @ ys) (length xs + j) r
          = run_length_loop (xs @ ys) (length xs + j) (r + 1)"
      by (subst L) (rule if_P [OF cl])
    moreover have "run_length_loop ys j r = run_length_loop ys j (r + 1)"
      by (subst R) (rule if_P [OF True])
    ultimately show ?thesis using "1.IH" [OF True] by simp
  next
    case False
    with cond have cl: "\<not> (length xs + j + r < length (xs @ ys) \<and>
         (xs @ ys) ! (length xs + j) = (xs @ ys) ! (length xs + j + r) \<and> r < 255)"
      by blast
    have "run_length_loop (xs @ ys) (length xs + j) r = r"
      by (subst L) (rule if_not_P [OF cl])
    moreover have "run_length_loop ys j r = r"
      by (subst R) (rule if_not_P [OF False])
    ultimately show ?thesis by simp
  qed
qed

lemma rle_from_append_right: "rle_from (xs @ ys) (length xs + j) = rle_from ys j"
proof (induction "length ys - j" arbitrary: j rule: less_induct)
  case less
  show ?case
  proof (cases "j < length ys")
    case False
    then show ?thesis by (simp add: rle_from_done)
  next
    case True
    let ?r = "run_length_loop ys j 1"
    have "1 \<le> ?r" by (rule run_length_loop_ge)
    with True have "length ys - (j + ?r) < length ys - j" by simp
    from less.hyps [OF this]
    have "rle_from (xs @ ys) (length xs + (j + ?r)) = rle_from ys (j + ?r)" .
    moreover from True have "length xs + j < length (xs @ ys)" by simp
    ultimately show ?thesis
      using rle_from_step [OF True] rle_from_step [of "length xs + j" "xs @ ys"]
        run_length_loop_append_right [of xs ys j 1]
      by (simp add: nth_append add.assoc)
  qed
qed

lemma rle_from_append_left:
  "i \<le> length xs \<Longrightarrow> ys = [] \<or> last xs \<noteq> hd ys \<Longrightarrow>
   rle_from (xs @ ys) i = rle_from xs i @ rle_from ys 0"
proof (induction "length xs - i" arbitrary: i rule: less_induct)
  case less
  show ?case
  proof (cases "i < length xs")
    case False
    with less.prems have "i = length xs" by simp
    then show ?thesis
      using rle_from_append_right [of xs ys 0] by (simp add: rle_from_done)
  next
    case True
    let ?r = "run_length_loop xs i 1"
    have r1: "1 \<le> ?r" by (rule run_length_loop_ge)
    from True have rlen: "i + ?r \<le> length xs" by (intro run_length_loop_in_range) simp
    have same: "run_length_loop (xs @ ys) i 1 = ?r"
      using True less.prems by (intro run_length_loop_append_left) simp_all
    from True r1 have "length xs - (i + ?r) < length xs - i" by simp
    from less.hyps [OF this rlen less.prems(2)]
    have "rle_from (xs @ ys) (i + ?r) = rle_from xs (i + ?r) @ rle_from ys 0" .
    moreover from True have "i < length (xs @ ys)" by simp
    ultimately show ?thesis
      using rle_from_step [OF True] rle_from_step [of i "xs @ ys"] same True
      by (simp add: nth_append)
  qed
qed

lemma rle_from_replicate:
  "rle_from (replicate n b) 0 =
     concat (replicate (n div 255) [b, 255])
     @ (if n mod 255 = 0 then [] else [b, of_nat (n mod 255)])"
  using rle_loop_replicate [of 0 n b "[]"] by (simp add: rle_from_def)

lemma apply_rle_rle_from: "apply_rle self data = (Inr (rle_from data 0), self)"
  by (simp add: apply_rle_def rle_loop_rle_from)

lemma run_in_context:
  assumes "0 < n" and "pre = [] \<or> last pre \<noteq> b" and "post = [] \<or> hd post \<noteq> b"
  shows "rle_from (pre @ replicate n b @ post) 0 =
     rle_from pre 0 @ rle_from (replicate n b) 0 @ rle_from post 0"
proof -
  from assms(1) have hd: "hd (replicate n b @ post) = b" by (cases n) simp_all
  from assms(1) have lst: "last (replicate n b) = b" by simp
  have "rle_from (pre @ replicate n b @ post) 0
        = rle_from pre 0 @ rle_from (replicate n b @ post) 0"
  proof (cases "pre = []")
    case True
    then show ?thesis by (simp add: rle_from_done)
  next
    case False
    with assms(2) hd show ?thesis by (intro rle_from_append_left) simp_all
  qed
  moreover have "rle_from (replicate n b @ post) 0
        = rle_from (replicate n b) 0 @ rle_from post 0"
    using assms(3) lst by (intro rle_from_append_left) auto
  ultimately show ?thesis by simp
qed

section \<open>Round trip\<close>

text \<open>
  C1. For each of the three methods '01' (delta then RLE), '02' (RLE only) and '03' (delta
  only) and every byte sequence, compress succeeds and decompress with the same method
  returns the original sequence.
\<close>

theorem decompress_compress:
  "method \<in> {''01'', ''02'', ''03''} \<Longrightarrow>
   \<exists>c. fst (compress self data method) = Inr c \<and> fst (decompress self' c method) = Inr data"
proof -
  assume "method \<in> {''01'', ''02'', ''03''}"
  then consider "method = ''01''" | "method = ''02''" | "method = ''03''" by auto
  then show ?thesis
  proof cases
    case 1
    from apply_rle_ok [of self "delta_list data"] obtain E where
      E: "apply_rle self (delta_list data) = (Inr E, self)" "even (length E)"
         "rleDecode_spec E = delta_list data"
      by blast
    have "fst (compress self data method) = Inr E"
      using 1 E(1) by (simp add: compress_def apply_delta_encoding_eq)
    moreover have "fst (decompress self' E method) = Inr data"
      using 1 E(2,3) by (simp add: decompress_def rle_decode_even delta_decode_delta_list)
    ultimately show ?thesis by blast
  next
    case 2
    from apply_rle_ok [of self data] obtain E where
      E: "apply_rle self data = (Inr E, self)" "even (length E)" "rleDecode_spec E = data"
      by blast
    have "fst (compress self data method) = Inr E"
      using 2 E(1) by (simp add: compress_def)
    moreover have "fst (decompress self' E method) = Inr data"
      using 2 E(2,3) by (simp add: decompress_def rle_decode_even)
    ultimately show ?thesis by blast
  next
    case 3
    then show ?thesis
      by (simp add: compress_def decompress_def apply_delta_encoding_eq delta_decode_delta_list)
  qed
qed


theorem decompress_compress_witness:
  "''01'' \<in> {''01'', ''02'', ''03''} \<and>
   (\<exists>c. fst (compress init (replicate 300 7 @ [1, 2]) ''01'') = Inr c
        \<and> fst (decompress init c ''01'') = Inr (replicate 300 7 @ [1, 2]))"
  using decompress_compress [of "''01''" init "replicate 300 7 @ [1, 2]" init] by simp

section \<open>Errors\<close>

text \<open>
  C2 (as the code has it). RLE decoding of an odd-length input, through decompress with
  method '02' or through the RLE-reversal step of method '01', does not return: at the
  last, unpaired byte the read of \<^verbatim>\<open>data[i + 1]\<close> is out of range and raises
  Python's IndexError. The source has no error of its own for a malformed stream.
\<close>

theorem odd_length_stream_raises_IndexError:
  "odd (length d) \<Longrightarrow>
   decompress self d ''02'' = (Inl IndexError, self) \<and>
   decompress self d ''01'' = (Inl IndexError, self)"
  by (simp add: decompress_def rle_decode_odd)

theorem odd_length_stream_raises_IndexError_witness:
  "odd (length [0x05 :: byte]) \<and>
   decompress init [0x05] ''02'' = (Inl IndexError, init) \<and>
   decompress init [0x05] ''01'' = (Inl IndexError, init)"
  using odd_length_stream_raises_IndexError [of "[0x05]" init] by simp

text \<open>
  At the single-byte input [0x05], with either method, the failure is the out-of-range
  fault itself.
\<close>

theorem malformed_stream_counterexample:
  "fst (decompress init [0x05] ''02'') = Inl IndexError \<and>
   fst (decompress init [0x05] ''01'') = Inl IndexError"
  by code_simp

text \<open>
  C3. For every byte sequence and every method string other than '01', '02' and '03',
  compress and decompress both raise the ValueError with the invalid-method message, and
  return no output.
\<close>

theorem invalid_method_raises:
  "method \<notin> {''01'', ''02'', ''03''} \<Longrightarrow>
   compress self data method = (Inl (ValueError invalid_method_message), self) \<and>
   decompress self data method = (Inl (ValueError invalid_method_message), self)"
  by (simp add: compress_def decompress_def)

theorem invalid_method_raises_witness:
  "''99'' \<notin> {''01'', ''02'', ''03''} \<and>
   compress init [1, 2, 3] ''99'' = (Inl (ValueError invalid_method_message), init) \<and>
   decompress init [1, 2, 3] ''99'' = (Inl (ValueError invalid_method_message), init)"
  using invalid_method_raises [of "''99''" init "[1, 2, 3]"] by simp

section \<open>Delta encoding\<close>

text \<open>
  C4. For every input, the delta encoding (compress with method '03') returns without
  error an output of the same length, whose byte 0 is the input's byte 0 and whose byte i,
  for i at least 1, is (Input[i] - Input[i - 1]) mod 256; the empty input gives the empty
  output and a single byte is returned unchanged.
\<close>

theorem delta_only_output:
  "\<exists>out. apply_delta_encoding self x = (out, self) \<and>
         compress self x ''03'' = (Inr out, self) \<and>
         length out = length x \<and>
         (x \<noteq> [] \<longrightarrow> out ! 0 = x ! 0) \<and>
         (\<forall>i. 1 \<le> i \<and> i < length x \<longrightarrow>
              uint (out ! i) = (uint (x ! i) - uint (x ! (i - 1))) mod 256) \<and>
         (x = [] \<longrightarrow> out = []) \<and>
         (\<forall>b. x = [b] \<longrightarrow> out = [b])"
proof (intro exI conjI)
  show "apply_delta_encoding self x = (delta_list x, self)" by (rule apply_delta_encoding_eq)
  show "compress self x ''03'' = (Inr (delta_list x), self)"
    by (simp add: compress_def apply_delta_encoding_eq)
  show "length (delta_list x) = length x" by (rule length_delta_list)
  show "x \<noteq> [] \<longrightarrow> delta_list x ! 0 = x ! 0" by (simp add: nth_delta_list)
  show "\<forall>i. 1 \<le> i \<and> i < length x \<longrightarrow>
          uint (delta_list x ! i) = (uint (x ! i) - uint (x ! (i - 1))) mod 256"
    by (simp add: nth_delta_list uint_sub_byte)
  show "x = [] \<longrightarrow> delta_list x = []" by (simp add: delta_list_def)
  show "\<forall>b. x = [b] \<longrightarrow> delta_list x = [b]" by (simp add: delta_list_def)
qed

theorem delta_only_output_witness:
  "\<exists>out. compress init [10, 5, 5] ''03'' = (Inr out, init) \<and> length out = 3 \<and>
         out ! 0 = 10 \<and> uint (out ! 1) = 251 \<and> uint (out ! 2) = 0"
proof -
  from delta_only_output [of init "[10, 5, 5]"] obtain out where
    c: "compress init [10, 5, 5] ''03'' = (Inr out, init)" and
    l: "length out = length [10, 5, 5 :: byte]" and
    z: "[10, 5, 5 :: byte] \<noteq> [] \<longrightarrow> out ! 0 = [10, 5, 5] ! 0" and
    n: "\<forall>i. 1 \<le> i \<and> i < length [10, 5, 5 :: byte] \<longrightarrow>
          uint (out ! i) = (uint ([10, 5, 5 :: byte] ! i) - uint ([10, 5, 5 :: byte] ! (i - 1))) mod 256"
    by blast
  from n have "uint (out ! 1) = 251" by simp
  moreover from n have "uint (out ! 2) = 0" by simp
  moreover from z have "out ! 0 = 10" by simp
  ultimately show ?thesis using c l by simp
qed

section \<open>Run-length encoding\<close>

text \<open>
  C5. In every output of the run-length encoding (compress with method '02') each run
  record's run-length byte is in [1, 255]. A run of n identical bytes b, alone or between
  a prefix that does not end in b and a suffix that does not start with b, is encoded as
  n div 255 records [b, 255] followed, when n mod 255 is not 0, by [b, n mod 255]; for 300
  bytes these are exactly [b, 255] and [b, 45], and decoding them gives the 300 bytes back.
\<close>

theorem rle_run_records:
  "(\<exists>out. compress self x ''02'' = (Inr out, self) \<and> even (length out) \<and>
      (\<forall>k. 2 * k + 1 < length out \<longrightarrow>
           1 \<le> unat (out ! (2 * k + 1)) \<and> unat (out ! (2 * k + 1)) \<le> 255)) \<and>
   compress self (replicate n b) ''02'' =
     (Inr (concat (replicate (n div 255) [b, 255])
           @ (if n mod 255 = 0 then [] else [b, of_nat (n mod 255)])), self) \<and>
   (0 < n \<and> (pre = [] \<or> last pre \<noteq> b) \<and> (post = [] \<or> hd post \<noteq> b) \<longrightarrow>
      (\<exists>P Q. compress self pre ''02'' = (Inr P, self) \<and>
             compress self post ''02'' = (Inr Q, self) \<and>
             compress self (pre @ replicate n b @ post) ''02'' =
               (Inr (P @ concat (replicate (n div 255) [b, 255])
                       @ (if n mod 255 = 0 then [] else [b, of_nat (n mod 255)])
                       @ Q), self))) \<and>
   compress self (replicate 300 b) ''02'' = (Inr [b, 255, b, 45], self) \<and>
   decompress self [b, 255, b, 45] ''02'' = (Inr (replicate 300 b), self)"
proof (intro conjI impI)
  from apply_rle_ok [of self x] obtain E where
    E: "apply_rle self x = (Inr E, self)" "even (length E)"
       "\<forall>(v, n) \<in> set (pairs E). 1 \<le> unat n \<and> unat n \<le> 255"
    by blast
  have "\<forall>k. 2 * k + 1 < length E \<longrightarrow>
           1 \<le> unat (E ! (2 * k + 1)) \<and> unat (E ! (2 * k + 1)) \<le> 255"
  proof (intro allI impI)
    fix k assume "2 * k + 1 < length E"
    from pairs_nth_mem [OF this] E(3)
    show "1 \<le> unat (E ! (2 * k + 1)) \<and> unat (E ! (2 * k + 1)) \<le> 255" by blast
  qed
  with E(1,2) show "\<exists>out. compress self x ''02'' = (Inr out, self) \<and> even (length out) \<and>
      (\<forall>k. 2 * k + 1 < length out \<longrightarrow>
           1 \<le> unat (out ! (2 * k + 1)) \<and> unat (out ! (2 * k + 1)) \<le> 255)"
    by (simp add: compress_def)
next
  show "compress self (replicate n b) ''02'' =
     (Inr (concat (replicate (n div 255) [b, 255])
           @ (if n mod 255 = 0 then [] else [b, of_nat (n mod 255)])), self)"
    by (simp add: compress_def apply_rle_rle_from rle_from_replicate)
next
  assume "0 < n \<and> (pre = [] \<or> last pre \<noteq> b) \<and> (post = [] \<or> hd post \<noteq> b)"
  then have "rle_from (pre @ replicate n b @ post) 0 =
     rle_from pre 0 @ rle_from (replicate n b) 0 @ rle_from post 0"
    by (intro run_in_context) simp_all
  then have "compress self (pre @ replicate n b @ post) ''02'' =
       (Inr (rle_from pre 0 @ concat (replicate (n div 255) [b, 255])
               @ (if n mod 255 = 0 then [] else [b, of_nat (n mod 255)])
               @ rle_from post 0), self)"
    by (simp add: compress_def apply_rle_rle_from rle_from_replicate)
  moreover have "compress self pre ''02'' = (Inr (rle_from pre 0), self)"
    "compress self post ''02'' = (Inr (rle_from post 0), self)"
    by (simp_all add: compress_def apply_rle_rle_from)
  ultimately show "\<exists>P Q. compress self pre ''02'' = (Inr P, self) \<and>
             compress self post ''02'' = (Inr Q, self) \<and>
             compress self (pre @ replicate n b @ post) ''02'' =
               (Inr (P @ concat (replicate (n div 255) [b, 255])
                       @ (if n mod 255 = 0 then [] else [b, of_nat (n mod 255)])
                       @ Q), self)"
    by blast
next
  show "compress self (replicate 300 b) ''02'' = (Inr [b, 255, b, 45], self)"
    by (simp add: compress_def apply_rle_rle_from rle_from_replicate)
next
  have "replicate 255 b @ replicate 45 b = replicate 300 b"
    by (simp flip: replicate_add)
  then show "decompress self [b, 255, b, 45] ''02'' = (Inr (replicate 300 b), self)"
    by (simp add: decompress_def rle_decode_even)
qed

theorem rle_run_records_witness:
  "compress init [1, 1, 2] ''02'' = (Inr [1, 2, 2, 1], init) \<and>
   1 \<le> unat ([1, 2, 2, 1 :: byte] ! 1) \<and> unat ([1, 2, 2, 1 :: byte] ! 1) \<le> 255 \<and>
   1 \<le> unat ([1, 2, 2, 1 :: byte] ! 3) \<and> unat ([1, 2, 2, 1 :: byte] ! 3) \<le> 255 \<and>
   compress init ([1] @ replicate 256 2 @ [3]) ''02'' = (Inr [1, 1, 2, 255, 2, 1, 3, 1], init)"
proof -
  have c: "compress init [1, 1, 2] ''02'' = (Inr [1, 2, 2, 1], init)" by code_simp
  from rle_run_records [of init "[1, 1, 2]"] c
  have a: "\<forall>k. 2 * k + 1 < length [1, 2, 2, 1 :: byte] \<longrightarrow>
           1 \<le> unat ([1, 2, 2, 1 :: byte] ! (2 * k + 1))
           \<and> unat ([1, 2, 2, 1 :: byte] ! (2 * k + 1)) \<le> 255"
    by auto
  have p: "compress init [1] ''02'' = (Inr [1, 1], init)"
    and q: "compress init [3] ''02'' = (Inr [3, 1], init)"
    by code_simp+
  have h: "0 < (256 :: nat) \<and> ([1 :: byte] = [] \<or> last [1 :: byte] \<noteq> 2)
           \<and> ([3 :: byte] = [] \<or> hd [3 :: byte] \<noteq> 2)"
    by simp
  from rle_run_records [of init _ 256 2 "[1]" "[3]"] h obtain P Q where
    "compress init [1] ''02'' = (Inr P, init)" "compress init [3] ''02'' = (Inr Q, init)"
    "compress init ([1] @ replicate 256 2 @ [3]) ''02'' =
       (Inr (P @ concat (replicate (256 div 255) [2, 255])
               @ (if (256 :: nat) mod 255 = 0 then [] else [2, of_nat (256 mod 255)])
               @ Q), init)"
    by blast
  with p q have "compress init ([1] @ replicate 256 2 @ [3]) ''02'' =
     (Inr [1, 1, 2, 255, 2, 1, 3, 1], init)"
    by simp
  with a [rule_format, of 0] a [rule_format, of 1] c show ?thesis by simp
qed

text \<open>
  C6. The input [1, 2, 3, 4] is encoded as [1, 1, 2, 1, 3, 1, 4, 1]. For every input the
  encoded output is at most twice as long as the input; when no two neighbouring bytes are
  equal every run has length 1 and the output is exactly twice as long.
\<close>

theorem rle_worst_case:
  "compress self [1, 2, 3, 4] ''02'' = (Inr [1, 1, 2, 1, 3, 1, 4, 1], self) \<and>
   (\<exists>out. compress self x ''02'' = (Inr out, self) \<and> length out \<le> 2 * length x \<and>
      ((\<forall>j. j + 1 < length x \<longrightarrow> x ! j \<noteq> x ! (j + 1)) \<longrightarrow>
         out = concat (map (\<lambda>b. [b, 1]) x) \<and> length out = 2 * length x))"
proof (intro conjI)
  show "compress self [1, 2, 3, 4] ''02'' = (Inr [1, 1, 2, 1, 3, 1, 4, 1], self)"
    by code_simp
next
  from apply_rle_ok [of self x] obtain E where
    E: "apply_rle self x = (Inr E, self)" "length E \<le> 2 * length x"
    by blast
  have "(\<forall>j. j + 1 < length x \<longrightarrow> x ! j \<noteq> x ! (j + 1)) \<longrightarrow>
         E = concat (map (\<lambda>b. [b, 1]) x) \<and> length E = 2 * length x"
  proof
    assume "\<forall>j. j + 1 < length x \<longrightarrow> x ! j \<noteq> x ! (j + 1)"
    then have "rle_loop x 0 [] = Inr ([] @ concat (map (\<lambda>b. [b, 1]) (drop 0 x)))"
      by (intro rle_loop_no_repeat) simp
    with E(1) have "E = concat (map (\<lambda>b. [b, 1]) x)" by (simp add: apply_rle_def)
    moreover have "length (concat (map (\<lambda>b. [b, 1 :: byte]) x)) = 2 * length x"
      by (induction x) simp_all
    ultimately show "E = concat (map (\<lambda>b. [b, 1]) x) \<and> length E = 2 * length x" by simp
  qed
  moreover have "compress self x ''02'' = (Inr E, self)"
    using E(1) by (simp add: compress_def)
  ultimately show "\<exists>out. compress self x ''02'' = (Inr out, self) \<and> length out \<le> 2 * length x \<and>
      ((\<forall>j. j + 1 < length x \<longrightarrow> x ! j \<noteq> x ! (j + 1)) \<longrightarrow>
         out = concat (map (\<lambda>b. [b, 1]) x) \<and> length out = 2 * length x)"
    using E(2) by blast
qed

theorem rle_worst_case_witness:
  "[5, 6, 5 :: byte] ! 0 \<noteq> [5, 6, 5] ! 1 \<and> [5, 6, 5 :: byte] ! 1 \<noteq> [5, 6, 5] ! 2 \<and>
   compress init [5, 6, 5] ''02'' = (Inr [5, 1, 6, 1, 5, 1], init) \<and>
   length [5, 1, 6, 1, 5, 1 :: byte] = 2 * length [5, 6, 5 :: byte]"
proof -
  have h: "\<forall>j. j + 1 < length [5, 6, 5 :: byte] \<longrightarrow> [5, 6, 5 :: byte] ! j \<noteq> [5, 6, 5] ! (j + 1)"
    by (simp add: nth_Cons split: nat.split)
  from rle_worst_case [of init "[5, 6, 5]"] h
  have "compress init [5, 6, 5] ''02'' = (Inr (concat (map (\<lambda>b. [b, 1]) [5, 6, 5])), init)"
    by auto
  then show ?thesis by simp
qed

text \<open>
  C10. For every even-length input, decompress with method '02' returns without error
  the concatenation, in order, of runLength copies of value for each consecutive pair
  [value, runLength]; the output length is the sum of the bytes at the odd indices, and a
  pair whose run-length byte is 0 is accepted and contributes nothing.
\<close>

theorem rle_only_decodes_even_input:
  "even (length d) \<Longrightarrow>
   decompress self d ''02'' = (Inr (rleDecode_spec d), self) \<and>
   length (rleDecode_spec d) = (\<Sum>k<length d div 2. unat (d ! (2 * k + 1))) \<and>
   (\<forall>a v b. d = a @ [v, 0] @ b \<and> even (length a) \<longrightarrow>
       decompress self (a @ b) ''02'' = decompress self d ''02'')"
proof (intro conjI allI impI)
  assume ev: "even (length d)"
  then show "decompress self d ''02'' = (Inr (rleDecode_spec d), self)"
    by (simp add: decompress_def rle_decode_even)
  show "length (rleDecode_spec d) = (\<Sum>k<length d div 2. unat (d ! (2 * k + 1)))"
    by (rule length_rleDecode_spec)
  fix a v b assume "d = a @ [v, 0] @ b \<and> even (length a)"
  then have d: "d = a @ [v, 0] @ b" and a: "even (length a)" by simp_all
  from ev d a have b: "even (length (a @ b))" by simp
  have "rleDecode_spec d = rleDecode_spec (a @ b)"
    using a by (simp add: d rleDecode_spec_append)
  with ev b show "decompress self (a @ b) ''02'' = decompress self d ''02''"
    by (simp add: decompress_def rle_decode_even)
qed

theorem rle_only_decodes_even_input_witness:
  "even (length [7, 2, 9, 0, 3, 1 :: byte]) \<and>
   decompress init [7, 2, 9, 0, 3, 1] ''02'' = (Inr [7, 7, 3], init) \<and>
   length [7, 7, 3 :: byte] = 2 + 0 + 1 \<and>
   decompress init [7, 2, 3, 1] ''02'' = decompress init [7, 2, 9, 0, 3, 1] ''02''"
proof -
  have e: "even (length [7, 2, 9, 0, 3, 1 :: byte])" by simp
  from rle_only_decodes_even_input [OF e, of init]
  have 1: "decompress init [7, 2, 9, 0, 3, 1] ''02'' = (Inr (rleDecode_spec [7, 2, 9, 0, 3, 1]), init)"
    and 2: "\<forall>a v b. [7, 2, 9, 0, 3, 1] = a @ [v, 0] @ b \<and> even (length a) \<longrightarrow>
       decompress init (a @ b) ''02'' = decompress init [7, 2, 9, 0, 3, 1] ''02''"
    by blast+
  from 2 [rule_format, of "[7, 2]" 9 "[3, 1]"]
  have "decompress init [7, 2, 3, 1] ''02'' = decompress init [7, 2, 9, 0, 3, 1] ''02''" by simp
  moreover have "rleDecode_spec [7, 2, 9, 0, 3, 1] = [7, 7, 3]" by code_simp
  ultimately show ?thesis using 1 by simp
qed

section \<open>Examples and the object's state\<close>

text \<open>
  C7. With method '01', the input [10, 10, 10, 12, 12] is delta-encoded to
  [10, 0, 0, 2, 0] and that is run-length encoded to [10, 1, 0, 2, 2, 1, 0, 1];
  decompress of these eight bytes with method '01' returns [10, 10, 10, 12, 12].
\<close>

theorem chained_example:
  "apply_delta_encoding self [10, 10, 10, 12, 12] = ([10, 0, 0, 2, 0], self) \<and>
   apply_rle self [10, 0, 0, 2, 0] = (Inr [10, 1, 0, 2, 2, 1, 0, 1], self) \<and>
   compress self [10, 10, 10, 12, 12] ''01'' = (Inr [10, 1, 0, 2, 2, 1, 0, 1], self) \<and>
   decompress self [10, 1, 0, 2, 2, 1, 0, 1] ''01'' = (Inr [10, 10, 10, 12, 12], self)"
  by code_simp

text \<open>
  C8. With each of the three methods, compress of the empty sequence returns the empty
  sequence, and so does decompress.
\<close>

theorem empty_input:
  "compress self [] ''01'' = (Inr [], self) \<and>
   compress self [] ''02'' = (Inr [], self) \<and>
   compress self [] ''03'' = (Inr [], self) \<and>
   decompress self [] ''01'' = (Inr [], self) \<and>
   decompress self [] ''02'' = (Inr [], self) \<and>
   decompress self [] ''03'' = (Inr [], self)"
  by code_simp

text \<open>
  C9. The results of compress and decompress do not depend on the object they are called
  on (so not on its field \<^verbatim>\<open>last_byte\<close>), and both leave the object as it was.
\<close>

theorem last_byte_is_dead_state:
  "fst (compress self data method) = fst (compress self' data method) \<and>
   snd (compress self data method) = self \<and>
   fst (decompress self data method) = fst (decompress self' data method) \<and>
   snd (decompress self data method) = self"
  by (simp add: compress_def decompress_def apply_delta_encoding_def apply_rle_def
           split: sum.split)

end
